theory Spec2Isabelle
  imports Complex_Main "HOL-Library.Word" "HOL-Library.AList" "HOL-Library.Sublist"
begin

section \<open>Data model\<close>

text \<open>
  The repository holds two programs that pull a container image and show one progress
  line: a plain terminal program (the first \<^verbatim>\<open>main.go\<close>) and a Bubble Tea program (the
  second \<^verbatim>\<open>main.go\<close>, with \<^verbatim>\<open>ui/progressline.go\<close>). Both keep a table of layers, fold it
  into one fraction and draw it.

  Go's \<^verbatim>\<open>int64\<close> is a 64-bit word read as two's complement: \<open>+\<close> wraps, and the
  comparisons of the source are the signed ones (\<open><s\<close>). A \<^verbatim>\<open>float64\<close> is modelled by
  the real number it denotes: comparisons are exact, while the rounding of a conversion,
  a quotient or a product to 53 bits is not modelled.
\<close>

type_synonym int64 = "64 word"
type_synonym float64 = real

text \<open>\<^verbatim>\<open>type layerState struct { current, total int64; status string; done bool }\<close>\<close>

record layerState =
  current :: int64
  total :: int64
  status :: string
  done' :: bool

text \<open>The zero value of the struct, which indexing a Go map yields for a missing key.\<close>

definition zero_layerState :: layerState where
  "zero_layerState = \<lparr>current = 0, total = 0, status = [], done' = False\<rparr>"

text \<open>
  \<^verbatim>\<open>map[string]layerState\<close> as the list of its entries. The table starts empty and is only
  written through \<open>AList.update\<close>, which keeps the keys distinct.
\<close>

type_synonym layer_map = "(string \<times> layerState) list"

definition index_layers :: "layer_map \<Rightarrow> string \<Rightarrow> layerState" where
  "index_layers layers k = (case map_of layers k of None \<Rightarrow> zero_layerState | Some ls \<Rightarrow> ls)"

text \<open>\<^verbatim>\<open>type progressEvent struct { id, status string; current, total int64 }\<close>\<close>

record progressEvent =
  ev_id :: string
  ev_status :: string
  ev_current :: int64
  ev_total :: int64

section \<open>Strings\<close>

text \<open>
  A Go string is a sequence of bytes, as \<open>string\<close> is. \<^verbatim>\<open>strings.ToLower\<close> is modelled on
  ASCII: the bytes \<open>A\<close> to \<open>Z\<close> get bit 5 set, every other byte is kept (the lower-casing of
  letters beyond ASCII is not modelled). \<^verbatim>\<open>strings.Contains s substr\<close> holds when \<open>substr\<close>
  starts at some position of \<open>s\<close>.
\<close>

fun lower_byte :: "char \<Rightarrow> char" where
  "lower_byte (Char b0 b1 b2 b3 b4 b5 b6 b7) =
     (if 65 \<le> (of_char (Char b0 b1 b2 b3 b4 b5 b6 b7) :: nat)
         \<and> (of_char (Char b0 b1 b2 b3 b4 b5 b6 b7) :: nat) \<le> 90
      then Char b0 b1 b2 b3 b4 True b6 b7
      else Char b0 b1 b2 b3 b4 b5 b6 b7)"

definition ToLower :: "string \<Rightarrow> string" where
  "ToLower s = map lower_byte s"

fun Contains :: "string \<Rightarrow> string \<Rightarrow> bool" where
  "Contains [] substr = (substr = [])"
| "Contains (c # s) substr = (prefix substr (c # s) \<or> Contains s substr)"

section \<open>Layer tracker\<close>

text \<open>
  The three labels of the \<^verbatim>\<open>switch status\<close> that mark a layer done, and the two that
  the completion tests accept.
\<close>

definition done_label :: "string \<Rightarrow> bool" where
  "done_label st \<longleftrightarrow>
     st = ''Download complete'' \<or> st = ''Pull complete'' \<or> st = ''Already exists''"

definition finished_label :: "string \<Rightarrow> bool" where
  "finished_label st \<longleftrightarrow> st = ''Pull complete'' \<or> st = ''Already exists''"

text \<open>
  The update of one layer, written twice in the source with the same text: in the loop of
  the terminal program (\<^verbatim>\<open>ls := layers[id]\<close> to \<^verbatim>\<open>layers[id] = ls\<close>) and in
  \<^verbatim>\<open>model.Update\<close> of the Bubble Tea program. The assignments are kept in the source's
  order; the snap reads the fields of \<open>ls\<close> as already updated.
\<close>

definition observe ::
  "string \<Rightarrow> string \<Rightarrow> int64 \<Rightarrow> int64 \<Rightarrow> string list \<Rightarrow> layer_map \<Rightarrow> string list \<times> layer_map"
where
  "observe lid st cur tot ord layers =
     (let ls = index_layers layers lid;
          ord = (if map_of layers lid = None then ord @ [lid] else ord);
          ls = (if 0 <s tot then ls\<lparr>total := tot\<rparr> else ls);
          ls = (if 0 <s cur \<or> tot = 0 then ls\<lparr>current := cur\<rparr> else ls);
          ls = (if st \<noteq> [] then ls\<lparr>status := st\<rparr> else ls);
          ls = (if done_label st
                then (let ls = ls\<lparr>done' := True\<rparr>
                      in if 0 <s total ls \<and> current ls <s total ls
                         then ls\<lparr>current := total ls\<rparr> else ls)
                else ls)
      in (ord, AList.update lid ls layers))"

section \<open>Record decoder\<close>

text \<open>
  What \<^verbatim>\<open>encoding/json\<close> stores in an \<^verbatim>\<open>any\<close>: nil, bool, float64, string, a slice or a
  map. The decoded \<^verbatim>\<open>map[string]any\<close> is the list of its entries, read with \<open>map_of\<close>.
\<close>

datatype json =
    JNull
  | JBool bool
  | JNumber float64
  | JString string
  | JArray "json list"
  | JObject "(string \<times> json) list"

type_synonym raw_record = "(string \<times> json) list"

text \<open>The type assertions \<^verbatim>\<open>v.(string)\<close>, \<^verbatim>\<open>v.(float64)\<close> and \<^verbatim>\<open>v.(map[string]any)\<close> on a lookup.\<close>

fun as_string :: "json option \<Rightarrow> string option" where
  "as_string (Some (JString s)) = Some s"
| "as_string _ = None"

fun as_float64 :: "json option \<Rightarrow> float64 option" where
  "as_float64 (Some (JNumber x)) = Some x"
| "as_float64 _ = None"

fun as_object :: "json option \<Rightarrow> raw_record option" where
  "as_object (Some (JObject kvs)) = Some kvs"
| "as_object _ = None"

text \<open>
  The conversion \<^verbatim>\<open>int64(c)\<close> drops the fraction (towards zero). For a value outside
  the range of \<^verbatim>\<open>int64\<close> Go leaves the result to the implementation; the model takes
  amd64's, the least \<^verbatim>\<open>int64\<close>.
\<close>

definition trunc :: "float64 \<Rightarrow> int" where
  "trunc x = (if 0 \<le> x then \<lfloor>x\<rfloor> else \<lceil>x\<rceil>)"

definition int64_of_float64 :: "float64 \<Rightarrow> int64" where
  "int64_of_float64 x =
     (let t = trunc x
      in if - (2 ^ 63) \<le> t \<and> t < 2 ^ 63 then word_of_int t else word_of_int (- (2 ^ 63)))"

definition float64_of_int64 :: "int64 \<Rightarrow> float64" where
  "float64_of_int64 n = real_of_int (sint n)"

text \<open>
  The fields read from one decoded record: both programs have this text, the Bubble Tea
  program sends the four values as a \<^verbatim>\<open>progressEvent\<close>.
\<close>

definition decode_event :: "raw_record \<Rightarrow> progressEvent" where
  "decode_event e =
     (let ident = (case as_string (map_of e ''id'') of Some s \<Rightarrow> s | None \<Rightarrow> []);
          st = (case as_string (map_of e ''status'') of Some s \<Rightarrow> s | None \<Rightarrow> []);
          cur = (case as_object (map_of e ''progressDetail'') of
                   Some pd \<Rightarrow> (case as_float64 (map_of pd ''current'') of
                                 Some c \<Rightarrow> int64_of_float64 c | None \<Rightarrow> 0)
                 | None \<Rightarrow> 0);
          tot = (case as_object (map_of e ''progressDetail'') of
                   Some pd \<Rightarrow> (case as_float64 (map_of pd ''total'') of
                                 Some t \<Rightarrow> int64_of_float64 t | None \<Rightarrow> 0)
                 | None \<Rightarrow> 0)
      in \<lparr>ev_id = ident, ev_status = st, ev_current = cur, ev_total = tot\<rparr>)"

text \<open>\<^verbatim>\<open>if errStr, ok := e["error"].(string); ok && errStr != ""\<close>: the message, if the test holds.\<close>

definition error_field :: "raw_record \<Rightarrow> string option" where
  "error_field e =
     (case as_string (map_of e ''error'') of
        Some errStr \<Rightarrow> (if errStr \<noteq> [] then Some errStr else None)
      | None \<Rightarrow> None)"

section \<open>Line renderer\<close>

text \<open>
  \<^verbatim>\<open>for i := lo; i < n; i++ { bar[i] = c }\<close>. Every index the source writes is inside the
  slice, so the list update never falls outside it.
\<close>

function fill_range :: "int \<Rightarrow> int \<Rightarrow> char \<Rightarrow> string \<Rightarrow> string" where
  "fill_range i n c bar = (if i < n then fill_range (i + 1) n c (bar[nat i := c]) else bar)"
  by pat_completeness auto
termination
  by (relation "measure (\<lambda>(i, n, c, bar). nat (n - i))") auto

declare fill_range.simps [simp del]

text \<open>\<^verbatim>\<open>asciiBar(pct, width)\<close>; \<^verbatim>\<open>make([]rune, width)\<close> panics on a negative width: \<open>None\<close>.\<close>

definition asciiBar :: "float64 \<Rightarrow> int \<Rightarrow> string option" where
  "asciiBar pct width =
     (if width < 0 then None
      else Some
        (let pct = (if pct < 0 then 0 else pct);
             pct = (if pct > 1 then 1 else pct);
             filled = trunc (pct * real_of_int width);
             filled = (if filled > width then width else filled);
             bar = replicate (nat width) (CHR 0x00);
             bar = fill_range 0 width (CHR '' '') bar;
             bar = (if filled > 0
                    then (fill_range 0 (filled - 1) (CHR ''='') bar)[nat (filled - 1) := CHR ''>'']
                    else bar)
         in bar))"

text \<open>
  The verb \<^verbatim>\<open>%3.0f\<close> of \<^verbatim>\<open>fmt.Sprintf\<close>: the value rounded to the nearest integer, a tie
  to the even one, in decimal, with a minus sign for a negative value, padded with blanks
  on the left to three columns.
\<close>

definition round_half_even :: "real \<Rightarrow> int" where
  "round_half_even x =
     (let f = \<lfloor>x\<rfloor>; d = x - real_of_int f
      in if d < 1 / 2 then f else if 1 / 2 < d then f + 1 else if even f then f else f + 1)"

definition digit_char :: "nat \<Rightarrow> char" where
  "digit_char d = char_of (48 + d)"

fun decimal :: "nat \<Rightarrow> string" where
  "decimal n = (if n < 10 then [digit_char n] else decimal (n div 10) @ [digit_char (n mod 10)])"

declare decimal.simps [simp del]

definition pad_left :: "nat \<Rightarrow> string \<Rightarrow> string" where
  "pad_left w s = replicate (w - length s) (CHR '' '') @ s"

definition Sprintf_3_0f :: "float64 \<Rightarrow> string" where
  "Sprintf_3_0f x =
     pad_left 3 ((if x < 0 then ''-'' else []) @ decimal (nat (round_half_even \<bar>x\<bar>)))"

text \<open>
  \<^verbatim>\<open>fmt.Sprintf("%s...[%s] %3.0f%%", label, asciiBar(pct, width), pct*100)\<close>, the line both
  programs draw. \<open>None\<close> when \<open>asciiBar\<close> panics.
\<close>

definition progress_text :: "string \<Rightarrow> float64 \<Rightarrow> int \<Rightarrow> string option" where
  "progress_text label pct width =
     (case asciiBar pct width of
        None \<Rightarrow> None
      | Some bar \<Rightarrow> Some (label @ ''...['' @ bar @ ''] '' @ Sprintf_3_0f (pct * 100) @ ''%''))"

section \<open>Aggregator and render of the terminal program\<close>

text \<open>
  What the run writes: a frame drawn by \<open>render\<close> (with the fraction it shows), other
  text written to \<^verbatim>\<open>out\<close>, and lines printed to standard output.
\<close>

datatype out_event = Frame float64 string | Out string | Stdout string

text \<open>The \<^verbatim>\<open>for _, id := range order\<close> loop of \<open>render\<close>, on its three variables.\<close>

fun render_sums :: "string list \<Rightarrow> layer_map \<Rightarrow> int64 \<times> int64 \<times> bool \<Rightarrow> int64 \<times> int64 \<times> bool" where
  "render_sums [] layers acc = acc"
| "render_sums (k # ord) layers (sumCurrent, sumTotal, allDone) =
     (case map_of layers k of
        None \<Rightarrow> render_sums ord layers (sumCurrent, sumTotal, allDone)
      | Some ls \<Rightarrow>
          (let allDone = (if \<not> (status ls = ''Pull complete'' \<or> status ls = ''Already exists'')
                          then False else allDone)
           in if 0 <s total ls
              then render_sums ord layers (sumCurrent + current ls, sumTotal + total ls, allDone)
              else render_sums ord layers (sumCurrent, sumTotal, allDone)))"

text \<open>\<open>render\<close> up to the clamp below 100%: the fraction before the monotonic clamp.\<close>

definition render_fraction :: "string list \<Rightarrow> layer_map \<Rightarrow> float64" where
  "render_fraction ord layers =
     (let (sumCurrent, sumTotal, allDone) = render_sums ord layers (0, 0, True);
          pct = (if 0 <s sumTotal
                 then float64_of_int64 sumCurrent / float64_of_int64 sumTotal else 0);
          pct = (if \<not> allDone \<and> pct \<ge> 999 / 1000 then 99 / 100 else pct)
      in pct)"

text \<open>
  The rest of \<open>render\<close>. Every call passes \<^verbatim>\<open>&lastPct\<close>, so the test \<^verbatim>\<open>lastPct != nil\<close>
  holds; the width is the constant 40, for which \<open>asciiBar\<close> does not panic. The result is
  the frame written and the new value of \<^verbatim>\<open>*lastPct\<close>.
\<close>

definition render :: "string \<Rightarrow> string list \<Rightarrow> layer_map \<Rightarrow> float64 \<Rightarrow> out_event \<times> float64" where
  "render img ord layers lastPct =
     (let pct = render_fraction ord layers;
          (pct, lastPct) = (if pct < lastPct then (lastPct, lastPct) else (pct, pct));
          line = (case progress_text (''Pulling '' @ img) pct 40 of Some l \<Rightarrow> l | None \<Rightarrow> [])
      in (Frame pct ([CHR 0x0D, CHR 0x1B] @ ''[2K'' @ line), lastPct))"

section \<open>Controller of the terminal program\<close>

record pull_state =
  layers :: layer_map
  order :: "string list"
  lastPct :: float64
  cancelled :: bool

definition init_state :: pull_state where
  "init_state = \<lparr>layers = [], order = [], lastPct = 0, cancelled = False\<rparr>"

datatype go_error = EOF | ContextCanceled | OtherError string

fun Error :: "go_error \<Rightarrow> string" where
  "Error EOF = ''EOF''"
| "Error ContextCanceled = ''context canceled''"
| "Error (OtherError m) = m"

text \<open>What \<^verbatim>\<open>dec.Decode(&e)\<close> returns: the entries of a JSON object, or an error.\<close>

datatype decoded = Value raw_record | Failed go_error

text \<open>
  One turn of the loop sees the decoder's answer and whether the input watcher stored the
  cancellation flag while the loop waited for it.
\<close>

datatype input = Step bool decoded

datatype control = Continue | Break | OsExit nat

definition finalize :: "string \<Rightarrow> bool \<Rightarrow> out_event list" where
  "finalize imageRef c =
     [Out ([CHR 0x0D, CHR 0x1B] @ ''[2KPulling '' @ imageRef @
           (if c then ''...CANCELLED'' else ''...DONE'') @ [CHR 0x0D, CHR 0x0A]),
      Out ([CHR 0x1B] @ ''[?25h'')]"

text \<open>The test \<^verbatim>\<open>allDone\<close> of \<open>main\<close>, a loop over the table that stops at the first failure.\<close>

fun main_allDone :: "layer_map \<Rightarrow> bool" where
  "main_allDone [] = True"
| "main_allDone ((k, s) # rest) =
     (if \<not> (status s = ''Pull complete'' \<or> status s = ''Already exists'') then False
      else main_allDone rest)"

definition render_step :: "string \<Rightarrow> pull_state \<Rightarrow> out_event \<times> pull_state" where
  "render_step imageRef s =
     (let (frame, lp) = render imageRef (order s) (layers s) (lastPct s)
      in (frame, s\<lparr>lastPct := lp\<rparr>))"

text \<open>The loop body from the filter of the header lines on, for the fields of one record.\<close>

definition handle_event :: "string \<Rightarrow> pull_state \<Rightarrow> progressEvent \<Rightarrow> out_event list \<times> pull_state \<times> control" where
  "handle_event imageRef s ev =
     (let lowerStatus = ToLower (ev_status ev)
      in if Contains lowerStatus ''pulling from'' then ([], s, Continue)
         else if ev_id ev = [] then
           (if Contains lowerStatus ''digest:'' \<or> Contains lowerStatus ''downloaded newer image''
                \<or> Contains lowerStatus ''image is up to date''
            then (let (frame, s) = render_step imageRef (s\<lparr>lastPct := 1\<rparr>)
                  in (frame # finalize imageRef (cancelled s), s, Break))
            else (let (frame, s) = render_step imageRef s in ([frame], s, Continue)))
         else
           (let (ord, lys) = observe (ev_id ev) (ev_status ev) (ev_current ev) (ev_total ev)
                               (order s) (layers s);
                s = s\<lparr>order := ord, layers := lys\<rparr>
            in if layers s \<noteq> [] \<and> main_allDone (layers s)
               then (let (frame, s) = render_step imageRef s
                     in (frame # finalize imageRef (cancelled s), s, Break))
               else (let (frame, s) = render_step imageRef s in ([frame], s, Continue))))"

text \<open>One turn of the \<^verbatim>\<open>for\<close> loop of \<open>main\<close>.\<close>

definition loop_body :: "string \<Rightarrow> pull_state \<Rightarrow> input \<Rightarrow> out_event list \<times> pull_state \<times> control" where
  "loop_body imageRef s i =
     (case i of Step key d \<Rightarrow>
        if cancelled s then (finalize imageRef (cancelled s), s, Break)
        else
          (let s = s\<lparr>cancelled := key\<rparr>
           in case d of
                Failed err \<Rightarrow>
                  if err = EOF then ([], s, Break)
                  else if err = ContextCanceled \<or> Contains (ToLower (Error err)) ''context canceled''
                  then (finalize imageRef (cancelled s), s, Break)
                  else ([Stdout (''Error: '' @ Error err @ [CHR 0x0A])], s, OsExit 1)
              | Value e \<Rightarrow>
                  (case error_field e of
                     Some errStr \<Rightarrow> ([Stdout (''Error: '' @ errStr @ [CHR 0x0A])], s, OsExit 1)
                   | None \<Rightarrow> handle_event imageRef s (decode_event e))))"

text \<open>The loop over the turns a run takes; it stops at the first \<^verbatim>\<open>break\<close> or exit.\<close>

fun run :: "string \<Rightarrow> pull_state \<Rightarrow> input list \<Rightarrow> out_event list \<times> pull_state \<times> control" where
  "run imageRef s [] = ([], s, Continue)"
| "run imageRef s (i # ins) =
     (case loop_body imageRef s i of
        (out, s', Continue) \<Rightarrow>
          (case run imageRef s' ins of (out', r) \<Rightarrow> (out @ out', r))
      | (out, s', c) \<Rightarrow> (out, s', c))"

text \<open>The fractions of the frames in what was written, in order.\<close>

fun fractions :: "out_event list \<Rightarrow> float64 list" where
  "fractions [] = []"
| "fractions (Frame p l # outs) = p # fractions outs"
| "fractions (_ # outs) = fractions outs"

section \<open>The Bubble Tea program\<close>

text \<open>\<^verbatim>\<open>ui.ProgressLine\<close> and its messages \<^verbatim>\<open>SetPercentMsg\<close> and \<^verbatim>\<open>DoneMsg\<close>.\<close>

record ProgressLine =
  Label :: string
  Percent :: float64
  Done :: bool
  Width :: int

definition NewProgressLine :: "string \<Rightarrow> ProgressLine" where
  "NewProgressLine label = \<lparr>Label = label, Percent = 0, Done = False, Width = 40\<rparr>"

definition SetPercent :: "ProgressLine \<Rightarrow> float64 \<Rightarrow> ProgressLine" where
  "SetPercent p x =
     (let pct = (if x < 0 then 0 else x);
          pct = (if pct > 1 then 1 else pct);
          p = p\<lparr>Percent := pct\<rparr>
      in if pct \<ge> 1 then p\<lparr>Done := True\<rparr> else p)"

definition SetDone :: "ProgressLine \<Rightarrow> ProgressLine" where
  "SetDone p = p\<lparr>Percent := 1, Done := True\<rparr>"

definition ProgressLine_View :: "ProgressLine \<Rightarrow> string option" where
  "ProgressLine_View p = progress_text (Label p) (Percent p) (Width p)"

record model =
  m_image :: string
  m_layers :: layer_map
  m_order :: "string list"
  m_pl :: ProgressLine
  m_cancelled :: bool
  m_done :: bool
  m_hideBar :: bool
  m_sawDownload :: bool

definition initialModel :: "string \<Rightarrow> model" where
  "initialModel img =
     \<lparr>m_image = img, m_layers = [], m_order = [],
      m_pl = NewProgressLine (''Pulling '' @ img),
      m_cancelled = False, m_done = False, m_hideBar = False, m_sawDownload = False\<rparr>"

datatype msg = KeyMsg | CancelMsg | ProgressEvent progressEvent | PullDone | PullErr go_error

text \<open>The loop of \<^verbatim>\<open>model.Update\<close> over \<^verbatim>\<open>m.order\<close>; a missing id reads as the zero value.\<close>

fun update_sums :: "string list \<Rightarrow> layer_map \<Rightarrow> int64 \<times> int64 \<times> bool \<Rightarrow> int64 \<times> int64 \<times> bool" where
  "update_sums [] lys acc = acc"
| "update_sums (k # ord) lys (sumCurrent, sumTotal, allDone) =
     (let ls = index_layers lys k;
          allDone = (if \<not> (status ls = ''Pull complete'' \<or> status ls = ''Already exists'')
                     then False else allDone)
      in if 0 <s total ls
         then update_sums ord lys (sumCurrent + current ls, sumTotal + total ls, allDone)
         else update_sums ord lys (sumCurrent, sumTotal, allDone))"

text \<open>
  \<^verbatim>\<open>model.Update\<close>: the new model and whether the program quits. The commands it returns
  besides \<^verbatim>\<open>tea.Quit\<close> only wait for the next message and are left out.
\<close>

definition Update :: "model \<Rightarrow> msg \<Rightarrow> model \<times> bool" where
  "Update m message =
     (case message of
        KeyMsg \<Rightarrow> (m, False)
      | CancelMsg \<Rightarrow> (m\<lparr>m_cancelled := True\<rparr>, False)
      | ProgressEvent ev \<Rightarrow>
          (let lowerStatus = ToLower (ev_status ev)
           in if Contains lowerStatus ''pulling from'' then (m, False)
              else
                (let m = (if Contains lowerStatus ''image is up to date''
                          then m\<lparr>m_hideBar := True\<rparr> else m);
                     m = (if Contains lowerStatus ''download'' \<or> Contains lowerStatus ''extract''
                          then m\<lparr>m_sawDownload := True\<rparr> else m);
                     m = (if ev_id ev \<noteq> []
                          then (let (ord, lys) = observe (ev_id ev) (ev_status ev) (ev_current ev)
                                                   (ev_total ev) (m_order m) (m_layers m)
                                in m\<lparr>m_order := ord, m_layers := lys\<rparr>)
                          else m);
                     (sumCurrent, sumTotal, allDone) = update_sums (m_order m) (m_layers m) (0, 0, True);
                     m = (if allDone \<and> \<not> m_sawDownload m then m\<lparr>m_hideBar := True\<rparr> else m);
                     m = (if 0 <s sumTotal
                          then (let pct = float64_of_int64 sumCurrent / float64_of_int64 sumTotal;
                                    pct = (if \<not> allDone \<and> pct \<ge> 999 / 1000 then 99 / 100 else pct);
                                    pct = (if pct < Percent (m_pl m) then Percent (m_pl m) else pct)
                                in m\<lparr>m_pl := SetPercent (m_pl m) pct\<rparr>)
                          else m)
                 in (m, False)))
      | PullDone \<Rightarrow> (m\<lparr>m_done := True, m_pl := SetDone (m_pl m)\<rparr>, True)
      | PullErr err \<Rightarrow> (m, True))"

fun updates :: "model \<Rightarrow> msg list \<Rightarrow> model" where
  "updates m [] = m"
| "updates m (x # xs) = updates (fst (Update m x)) xs"

section \<open>Invariants\<close>

text \<open>
  The table and the insertion order agree: the ids in the order are the keys of the table,
  and neither repeats an id.
\<close>

definition tracker_inv :: "string list \<Rightarrow> layer_map \<Rightarrow> bool" where
  "tracker_inv ord lys \<longleftrightarrow> set ord = fst ` set lys \<and> distinct ord \<and> distinct (map fst lys)"

text \<open>
  The completion flag in the specification's words: the tracked layer set is non-empty and
  every layer's status is one of the two labels.
\<close>

definition allDone_spec :: "layer_map \<Rightarrow> bool" where
  "allDone_spec lys \<longleftrightarrow>
     lys \<noteq> [] \<and> (\<forall>ls \<in> snd ` set lys. status ls = ''Pull complete'' \<or> status ls = ''Already exists'')"

text \<open>
  What holds whenever the loop of \<open>main\<close> starts a turn: the table and the order agree, the
  last fraction drawn is below 0.999, and the table does not pass the completion test (the
  loop would have ended).
\<close>

definition loop_inv :: "pull_state \<Rightarrow> bool" where
  "loop_inv s \<longleftrightarrow>
     tracker_inv (order s) (layers s) \<and> lastPct s < 999 / 1000
     \<and> \<not> (layers s \<noteq> [] \<and> main_allDone (layers s))"

text \<open>
  What one turn keeps: the agreement of table and order, the old order as a prefix of the
  new one, at most one frame, not below the last fraction and stored as the new one, and
  the loop invariant if the loop goes on.
\<close>

definition step_ok :: "pull_state \<Rightarrow> out_event list \<times> pull_state \<times> control \<Rightarrow> bool" where
  "step_ok s r \<longleftrightarrow>
     (case r of (out, s', c) \<Rightarrow>
        tracker_inv (order s') (layers s') \<and> prefix (order s) (order s')
        \<and> (fractions out = [] \<and> lastPct s' = lastPct s
            \<or> fractions out = [lastPct s'] \<and> lastPct s \<le> lastPct s')
        \<and> (c = Continue \<longrightarrow> loop_inv s'))"

section \<open>Sample records\<close>

text \<open>
  The condition under which the loop body takes the branch that sets \<^verbatim>\<open>lastPct = 1.0\<close>: the
  record is not a filtered "pulling from" line, has no id, and its status holds one of the
  three closing phrases.
\<close>

definition forced_complete :: "progressEvent \<Rightarrow> bool" where
  "forced_complete ev \<longleftrightarrow>
     \<not> Contains (ToLower (ev_status ev)) ''pulling from'' \<and> ev_id ev = []
     \<and> (Contains (ToLower (ev_status ev)) ''digest:''
        \<or> Contains (ToLower (ev_status ev)) ''downloaded newer image''
        \<or> Contains (ToLower (ev_status ev)) ''image is up to date'')"

text \<open>Records as the daemon sends them, for the examples: a layer's progress and a header line.\<close>

definition layer_record :: "string \<Rightarrow> string \<Rightarrow> float64 \<Rightarrow> float64 \<Rightarrow> raw_record" where
  "layer_record lid st cur tot =
     [(''status'', JString st),
      (''progressDetail'', JObject [(''current'', JNumber cur), (''total'', JNumber tot)]),
      (''id'', JString lid)]"

definition header_record :: "string \<Rightarrow> raw_record" where
  "header_record st = [(''status'', JString st)]"

text \<open>
  The example of the specification: two layers downloading, then both complete.
\<close>

definition example_pull :: "input list" where
  "example_pull =
     [Step False (Value (layer_record ''a'' ''Downloading'' 50 100)),
      Step False (Value (layer_record ''b'' ''Downloading'' 0 200)),
      Step False (Value [(''status'', JString ''Pull complete''), (''id'', JString ''a'')]),
      Step False (Value [(''status'', JString ''Pull complete''), (''id'', JString ''b'')])]"

section \<open>Properties of the layer tracker\<close>

lemma index_layers_update:
  "index_layers (AList.update k v lys) k' = (if k' = k then v else index_layers lys k')"
  by (simp add: index_layers_def update_conv')

lemma observe_layers:
  "snd (observe lid st cur tot ord lys)
     = AList.update lid (index_layers (snd (observe lid st cur tot ord lys)) lid) lys"
  by (simp add: observe_def Let_def index_layers_update)

lemma observe_other:
  "k \<noteq> lid \<Longrightarrow> index_layers (snd (observe lid st cur tot ord lys)) k = index_layers lys k"
  by (simp add: observe_def Let_def index_layers_update)

lemma observe_total:
  "total (index_layers (snd (observe lid st cur tot ord lys)) lid)
     = (if 0 <s tot then tot else total (index_layers lys lid))"
  by (simp add: observe_def Let_def index_layers_update)

lemma observe_status:
  "status (index_layers (snd (observe lid st cur tot ord lys)) lid)
     = (if st \<noteq> [] then st else status (index_layers lys lid))"
  by (simp add: observe_def Let_def index_layers_update)

lemma observe_done:
  "done' (index_layers (snd (observe lid st cur tot ord lys)) lid)
     \<longleftrightarrow> done_label st \<or> done' (index_layers lys lid)"
  by (simp add: observe_def Let_def index_layers_update)

lemma observe_current:
  "current (index_layers (snd (observe lid st cur tot ord lys)) lid)
     = (let c = (if 0 <s cur \<or> tot = 0 then cur else current (index_layers lys lid));
            t = (if 0 <s tot then tot else total (index_layers lys lid))
        in if done_label st \<and> 0 <s t \<and> c <s t then t else c)"
  by (simp add: observe_def Let_def index_layers_update)

text \<open>
  C4. Observing an event for a layer id writes the layer's entry as follows, where \<open>old\<close>
  is the entry before (the zero value for a new id) and \<open>new\<close> the entry after: total is the
  incoming total when that is positive and the old total otherwise; current is the incoming
  current exactly when the incoming current is positive or the incoming total is zero, and
  the old current otherwise; status is the incoming status when non-empty and the old one
  otherwise; under one of the three labels done is set, and current is raised to total when
  total is positive and current is below it. Every other entry is left as it was. The
  update itself does not read the id: its callers guard it by \<^verbatim>\<open>id != ""\<close>.
\<close>

theorem observe_updates_layer:
  fixes lid st cur tot ord lys
  defines "old \<equiv> index_layers lys lid"
  defines "new \<equiv> index_layers (snd (observe lid st cur tot ord lys)) lid"
  defines "c \<equiv> (if 0 <s cur \<or> tot = 0 then cur else current old)"
  shows "total new = (if 0 <s tot then tot else total old)
       \<and> status new = (if st \<noteq> [] then st else status old)
       \<and> (done' new \<longleftrightarrow> done_label st \<or> done' old)
       \<and> current new = (if done_label st \<and> 0 <s total new \<and> c <s total new then total new else c)
       \<and> snd (observe lid st cur tot ord lys) = AList.update lid new lys
       \<and> (lid \<noteq> [] \<and> st = ''Pull complete'' \<and> tot = 100 \<and> cur = 40 \<longrightarrow> current new = 100)"
proof -
  have t: "total new = (if 0 <s tot then tot else total old)"
    unfolding new_def old_def by (rule observe_total)
  have s: "status new = (if st \<noteq> [] then st else status old)"
    unfolding new_def old_def by (rule observe_status)
  have d: "done' new \<longleftrightarrow> done_label st \<or> done' old"
    unfolding new_def old_def by (rule observe_done)
  have cu: "current new = (if done_label st \<and> 0 <s total new \<and> c <s total new then total new else c)"
    unfolding t unfolding new_def old_def c_def by (simp add: observe_current Let_def)
  have u: "snd (observe lid st cur tot ord lys) = AList.update lid new lys"
    unfolding new_def by (rule observe_layers)
  have ex: "lid \<noteq> [] \<and> st = ''Pull complete'' \<and> tot = 100 \<and> cur = 40 \<longrightarrow> current new = 100"
    unfolding cu t c_def by (simp add: done_label_def word_sless_alt)
  from t s d cu u ex show ?thesis by blast
qed

theorem observe_updates_layer_witness:
  "index_layers (snd (observe ''a'' ''Pull complete'' 40 100 [] [])) ''a''
     = \<lparr>current = 100, total = 100, status = ''Pull complete'', done' = True\<rparr>"
proof -
  let ?new = "index_layers (snd (observe ''a'' ''Pull complete'' 40 100 [] [])) ''a''"
  have "current ?new = 100" "total ?new = 100" "status ?new = ''Pull complete''" "done' ?new"
    using observe_updates_layer [where lid = "''a''" and st = "''Pull complete''" and cur = 40
        and tot = 100 and ord = "[]" and lys = "[]"]
    by (simp_all add: done_label_def word_sless_alt index_layers_def zero_layerState_def)
  then show ?thesis by (cases "?new") simp
qed

section \<open>Invariants of the loop\<close>

lemma main_allDone_iff:
  "main_allDone lys \<longleftrightarrow> (\<forall>ls \<in> snd ` set lys. status ls = ''Pull complete'' \<or> status ls = ''Already exists'')"
  by (induction lys rule: main_allDone.induct) auto

lemma render_sums_allDone:
  "snd (snd (render_sums ord lys (a, b, d)))
     \<longleftrightarrow> d \<and> (\<forall>k \<in> set ord. \<forall>ls. map_of lys k = Some ls \<longrightarrow>
                 status ls = ''Pull complete'' \<or> status ls = ''Already exists'')"
  by (induction ord arbitrary: a b d) (auto simp: Let_def split: option.splits)

lemma render_sums_Nil: "render_sums [] lys acc = acc"
  by simp

lemma tracker_inv_allDone:
  assumes "tracker_inv ord lys"
  shows "snd (snd (render_sums ord lys (0, 0, True))) \<longleftrightarrow> main_allDone lys"
proof -
  from assms have s: "set ord = fst ` set lys" and d: "distinct (map fst lys)"
    by (simp_all add: tracker_inv_def)
  have "(\<forall>k \<in> set ord. \<forall>ls. map_of lys k = Some ls \<longrightarrow> finished_label (status ls))
        \<longleftrightarrow> (\<forall>ls \<in> snd ` set lys. finished_label (status ls))"
  proof
    assume l: "\<forall>k \<in> set ord. \<forall>ls. map_of lys k = Some ls \<longrightarrow> finished_label (status ls)"
    show "\<forall>ls \<in> snd ` set lys. finished_label (status ls)"
    proof
      fix ls assume "ls \<in> snd ` set lys"
      then obtain k where kl: "(k, ls) \<in> set lys" by auto
      then have "k \<in> set ord" using s by force
      moreover have "map_of lys k = Some ls" using d kl by simp
      ultimately show "finished_label (status ls)" using l by blast
    qed
  next
    assume r: "\<forall>ls \<in> snd ` set lys. finished_label (status ls)"
    show "\<forall>k \<in> set ord. \<forall>ls. map_of lys k = Some ls \<longrightarrow> finished_label (status ls)"
    proof (intro ballI allI impI)
      fix k ls assume "map_of lys k = Some ls"
      then have "(k, ls) \<in> set lys" by (rule map_of_SomeD)
      then have "ls \<in> snd ` set lys" by force
      then show "finished_label (status ls)" using r by blast
    qed
  qed
  then show ?thesis
    by (simp add: render_sums_allDone main_allDone_iff finished_label_def)
qed

lemma render_fraction_not_done:
  "\<not> snd (snd (render_sums ord lys (0, 0, True))) \<Longrightarrow> render_fraction ord lys < 999 / 1000"
  by (cases "render_sums ord lys (0, 0, True)") (auto simp: render_fraction_def Let_def)

lemma render_fraction_Nil: "render_fraction [] lys = 0"
  by (simp add: render_fraction_def word_sless_alt)

lemma render_eq:
  "\<exists>line. render img ord lys lp
     = (Frame (max (render_fraction ord lys) lp) line, max (render_fraction ord lys) lp)"
  by (auto simp: render_def Let_def max_def)

lemma tracker_inv_empty: "tracker_inv [] []"
  by (simp add: tracker_inv_def)

lemma tracker_inv_observe:
  assumes "tracker_inv ord lys" and "observe lid st cur tot ord lys = (ord', lys')"
  shows "tracker_inv ord' lys' \<and> prefix ord ord'"
proof -
  from assms(2) obtain v where l: "lys' = AList.update lid v lys"
    and o: "ord' = (if map_of lys lid = None then ord @ [lid] else ord)"
    by (auto simp: observe_def Let_def)
  from assms(1) have s: "set ord = fst ` set lys" and d1: "distinct ord" and d2: "distinct (map fst lys)"
    by (simp_all add: tracker_inv_def)
  have k: "fst ` set lys' = insert lid (fst ` set lys)" using l by (simp add: dom_update)
  have m: "map_of lys lid = None \<longleftrightarrow> lid \<notin> fst ` set lys" by (simp add: map_of_eq_None_iff)
  have "set ord' = fst ` set lys'" using o k s m by auto
  moreover have "distinct ord'" using o d1 s m by auto
  moreover have "distinct (map fst lys')" using l d2 by (simp add: distinct_update)
  moreover have "prefix ord ord'" using o by simp
  ultimately show ?thesis by (simp add: tracker_inv_def)
qed

lemma render_fraction_bound:
  assumes "tracker_inv ord lys" and "\<not> (lys \<noteq> [] \<and> main_allDone lys)"
  shows "render_fraction ord lys < 999 / 1000"
proof (cases "lys = []")
  case True
  with assms(1) have "ord = []" by (simp add: tracker_inv_def)
  then show ?thesis by (simp add: render_fraction_Nil)
next
  case False
  with assms(2) have "\<not> main_allDone lys" by simp
  with assms(1) have "\<not> snd (snd (render_sums ord lys (0, 0, True)))"
    by (simp add: tracker_inv_allDone)
  then show ?thesis by (rule render_fraction_not_done)
qed

lemma render_step_eq:
  "\<exists>line. render_step img s
     = (Frame (max (render_fraction (order s) (layers s)) (lastPct s)) line,
        s\<lparr>lastPct := max (render_fraction (order s) (layers s)) (lastPct s)\<rparr>)"
proof -
  obtain line where "render img (order s) (layers s) (lastPct s)
     = (Frame (max (render_fraction (order s) (layers s)) (lastPct s)) line,
        max (render_fraction (order s) (layers s)) (lastPct s))"
    using render_eq by blast
  then show ?thesis by (simp add: render_step_def)
qed

lemma fractions_finalize: "fractions (finalize img c) = []"
  by (simp add: finalize_def)

lemma fractions_append: "fractions (xs @ ys) = fractions xs @ fractions ys"
  by (induction xs rule: fractions.induct) simp_all

lemma handle_event_ok:
  assumes inv: "loop_inv s"
  shows "step_ok s (handle_event img s ev)"
proof -
  from inv have ti: "tracker_inv (order s) (layers s)" and lp: "lastPct s < 999 / 1000"
    and nd: "\<not> (layers s \<noteq> [] \<and> main_allDone (layers s))"
    by (simp_all add: loop_inv_def)
  have rf: "render_fraction (order s) (layers s) < 999 / 1000"
    using ti nd by (rule render_fraction_bound)
  let ?low = "ToLower (ev_status ev)"
  show ?thesis
  proof (cases "Contains ?low ''pulling from''")
    case True
    then show ?thesis using inv ti by (simp add: handle_event_def step_ok_def Let_def)
  next
    case nf: False
    show ?thesis
    proof (cases "ev_id ev = []")
      case hdr: True
      show ?thesis
      proof (cases "Contains ?low ''digest:'' \<or> Contains ?low ''downloaded newer image''
                \<or> Contains ?low ''image is up to date''")
        case True
        obtain line where r: "render_step img (s\<lparr>lastPct := 1\<rparr>)
            = (Frame (max (render_fraction (order s) (layers s)) 1) line,
               s\<lparr>lastPct := max (render_fraction (order s) (layers s)) 1\<rparr>)"
          using render_step_eq [of img "s\<lparr>lastPct := 1\<rparr>"] by auto
        have m: "max (render_fraction (order s) (layers s)) 1 = 1" using rf by simp
        show ?thesis using nf hdr True r m ti lp
          by (auto simp add: handle_event_def step_ok_def fractions_finalize Let_def)
      next
        case False
        obtain line where r: "render_step img s
            = (Frame (max (render_fraction (order s) (layers s)) (lastPct s)) line,
               s\<lparr>lastPct := max (render_fraction (order s) (layers s)) (lastPct s)\<rparr>)"
          using render_step_eq [of img s] by auto
        show ?thesis using nf hdr False r ti lp rf nd
          by (auto simp add: handle_event_def step_ok_def loop_inv_def Let_def)
      qed
    next
      case lay: False
      obtain ord' lys' where ob: "observe (ev_id ev) (ev_status ev) (ev_current ev) (ev_total ev)
                               (order s) (layers s) = (ord', lys')"
        by (cases "observe (ev_id ev) (ev_status ev) (ev_current ev) (ev_total ev) (order s) (layers s)")
      let ?s2 = "s\<lparr>order := ord', layers := lys'\<rparr>"
      from tracker_inv_observe [OF ti ob] have ti': "tracker_inv ord' lys'" and pre: "prefix (order s) ord'"
        by simp_all
      obtain line where r: "render_step img ?s2
            = (Frame (max (render_fraction ord' lys') (lastPct s)) line,
               ?s2\<lparr>lastPct := max (render_fraction ord' lys') (lastPct s)\<rparr>)"
        using render_step_eq [of img ?s2] by auto
      show ?thesis
      proof (cases "lys' \<noteq> [] \<and> main_allDone lys'")
        case True
        then show ?thesis using nf lay ob r ti' pre
          by (auto simp add: handle_event_def step_ok_def fractions_finalize Let_def)
      next
        case False
        have "render_fraction ord' lys' < 999 / 1000"
          using ti' False by (rule render_fraction_bound)
        then show ?thesis using False nf lay ob r ti' pre lp
          by (auto simp add: handle_event_def step_ok_def loop_inv_def Let_def)
      qed
    qed
  qed
qed

lemma loop_body_ok:
  assumes inv: "loop_inv s"
  shows "step_ok s (loop_body img s i)"
proof (cases i)
  case (Step key d)
  from inv have ti: "tracker_inv (order s) (layers s)" by (simp add: loop_inv_def)
  have inv': "loop_inv (s\<lparr>cancelled := key\<rparr>)" using inv by (simp add: loop_inv_def)
  have triv: "\<And>out c. fractions out = [] \<Longrightarrow> c \<noteq> Continue \<Longrightarrow> step_ok s (out, s\<lparr>cancelled := key\<rparr>, c)"
    using ti by (simp add: step_ok_def)
  show ?thesis
  proof (cases "cancelled s")
    case True
    then show ?thesis using Step ti by (simp add: loop_body_def step_ok_def fractions_finalize)
  next
    case nc: False
    show ?thesis
    proof (cases d)
      case (Failed err)
      then show ?thesis using Step nc triv
        by (simp add: loop_body_def fractions_finalize Let_def)
    next
      case (Value e)
      show ?thesis
      proof (cases "error_field e")
        case (Some m)
        then show ?thesis using Step nc Value triv by (simp add: loop_body_def Let_def)
      next
        case None
        have "step_ok (s\<lparr>cancelled := key\<rparr>) (handle_event img (s\<lparr>cancelled := key\<rparr>) (decode_event e))"
          using inv' by (rule handle_event_ok)
        then have "step_ok s (handle_event img (s\<lparr>cancelled := key\<rparr>) (decode_event e))"
          by (simp add: step_ok_def)
        then show ?thesis using Step nc Value None by (simp add: loop_body_def Let_def)
      qed
    qed
  qed
qed

lemma loop_inv_init: "loop_inv init_state"
  by (simp add: loop_inv_def init_state_def tracker_inv_def)

lemma run_ok:
  assumes "loop_inv s"
  shows "tracker_inv (order (fst (snd (run img s ins)))) (layers (fst (snd (run img s ins))))
       \<and> prefix (order s) (order (fst (snd (run img s ins))))
       \<and> sorted (lastPct s # fractions (fst (run img s ins)))
       \<and> (snd (snd (run img s ins)) = Continue \<longrightarrow> loop_inv (fst (snd (run img s ins))))"
  using assms
proof (induction ins arbitrary: s)
  case Nil
  then show ?case by (simp add: loop_inv_def)
next
  case (Cons i ins)
  obtain out s1 c where lb: "loop_body img s i = (out, s1, c)"
    by (cases "loop_body img s i") auto
  from loop_body_ok [OF Cons.prems, of img i] lb
  have ti: "tracker_inv (order s1) (layers s1)" and pre: "prefix (order s) (order s1)"
    and fr: "fractions out = [] \<and> lastPct s1 = lastPct s
            \<or> fractions out = [lastPct s1] \<and> lastPct s \<le> lastPct s1"
    and ci: "c = Continue \<longrightarrow> loop_inv s1"
    by (simp_all add: step_ok_def)
  show ?case
  proof (cases "c = Continue")
    case True
    with ci have inv1: "loop_inv s1" by simp
    note ih = Cons.IH [OF inv1]
    obtain out' s2 c2 where r: "run img s1 ins = (out', s2, c2)"
      by (cases "run img s1 ins") auto
    have e: "run img s (i # ins) = (out @ out', s2, c2)"
      using lb True r by simp
    from ih r have a: "tracker_inv (order s2) (layers s2)" and b: "prefix (order s1) (order s2)"
      and so: "sorted (lastPct s1 # fractions out')" and d: "c2 = Continue \<longrightarrow> loop_inv s2"
      by simp_all
    from fr so have "sorted (lastPct s # fractions (out @ out'))"
      by (auto simp: fractions_append)
    moreover from pre b have "prefix (order s) (order s2)" by (rule prefix_order.trans)
    ultimately show ?thesis using e a d by simp
  next
    case False
    then have e: "run img s (i # ins) = (out, s1, c)"
      using lb by (cases c) simp_all
    from fr have "sorted (lastPct s # fractions out)" by auto
    then show ?thesis using e ti pre False by simp
  qed
qed

lemma run_append:
  "run img s (xs @ ys) =
     (case run img s xs of
        (out, s', Continue) \<Rightarrow> (case run img s' ys of (out', r) \<Rightarrow> (out @ out', r))
      | (out, s', c) \<Rightarrow> (out, s', c))"
proof (induction xs arbitrary: s)
  case Nil
  then show ?case by (simp split: prod.splits)
next
  case (Cons x xs)
  show ?case
  proof (cases "loop_body img s x")
    case (fields out s1 c)
    then show ?thesis using Cons.IH [of s1]
      by (cases c) (auto split: prod.splits control.splits)
  qed
qed

section \<open>The rendered fraction\<close>

lemma allDone_spec_main: "allDone_spec lys \<longleftrightarrow> lys \<noteq> [] \<and> main_allDone lys"
  by (simp add: allDone_spec_def main_allDone_iff)

lemma handle_event_fractions:
  assumes inv: "loop_inv s" and h: "handle_event img s ev = (out, s', c)"
    and nf: "\<not> forced_complete ev" and nd: "\<not> allDone_spec (layers s')"
  shows "\<forall>p \<in> set (fractions out). p < 999 / 1000"
proof -
  from inv have ti: "tracker_inv (order s) (layers s)" and lp: "lastPct s < 999 / 1000"
    by (simp_all add: loop_inv_def)
  let ?low = "ToLower (ev_status ev)"
  show ?thesis
  proof (cases "Contains ?low ''pulling from''")
    case True
    then show ?thesis using h by (auto simp: handle_event_def Let_def)
  next
    case np: False
    show ?thesis
    proof (cases "ev_id ev = []")
      case hdr: True
      with nf np have nfin: "\<not> (Contains ?low ''digest:'' \<or> Contains ?low ''downloaded newer image''
                \<or> Contains ?low ''image is up to date'')"
        by (simp add: forced_complete_def)
      obtain line where r: "render_step img s
            = (Frame (max (render_fraction (order s) (layers s)) (lastPct s)) line,
               s\<lparr>lastPct := max (render_fraction (order s) (layers s)) (lastPct s)\<rparr>)"
        using render_step_eq [of img s] by auto
      from h np hdr nfin r have o: "out = [Frame (max (render_fraction (order s) (layers s)) (lastPct s)) line]"
        and s': "layers s' = layers s"
        by (auto simp: handle_event_def Let_def)
      from nd s' have "\<not> (layers s \<noteq> [] \<and> main_allDone (layers s))"
        by (simp add: allDone_spec_main)
      with ti have "render_fraction (order s) (layers s) < 999 / 1000"
        by (rule render_fraction_bound)
      then show ?thesis using o lp by simp
    next
      case lay: False
      obtain ord' lys' where ob: "observe (ev_id ev) (ev_status ev) (ev_current ev) (ev_total ev)
                               (order s) (layers s) = (ord', lys')"
        by (cases "observe (ev_id ev) (ev_status ev) (ev_current ev) (ev_total ev) (order s) (layers s)")
      let ?s2 = "s\<lparr>order := ord', layers := lys'\<rparr>"
      from tracker_inv_observe [OF ti ob] have ti': "tracker_inv ord' lys'" by simp
      obtain line where r: "render_step img ?s2
            = (Frame (max (render_fraction ord' lys') (lastPct s)) line,
               ?s2\<lparr>lastPct := max (render_fraction ord' lys') (lastPct s)\<rparr>)"
        using render_step_eq [of img ?s2] by auto
      from h np lay ob r have l': "layers s' = lys'"
        and o: "fractions out = [max (render_fraction ord' lys') (lastPct s)]"
        by (auto simp: handle_event_def Let_def fractions_finalize split: if_splits)
      from nd l' have "\<not> (lys' \<noteq> [] \<and> main_allDone lys')"
        by (simp add: allDone_spec_main)
      with ti' have "render_fraction ord' lys' < 999 / 1000"
        by (rule render_fraction_bound)
      then show ?thesis using o lp by simp
    qed
  qed
qed

lemma run_reaches_inv:
  assumes "run img init_state ins = (outs, s, Continue)"
  shows "loop_inv s"
  using run_ok [OF loop_inv_init, of img ins] assms by simp

text \<open>
  C1. Each call of \<open>render\<close> shows the greater of the computed fraction and the last
  fraction shown, and stores it as the last fraction shown; over every run of the terminal
  program from its initial state, whatever the decoder delivers, the fractions of the frames
  drawn are in non-decreasing order.
\<close>

theorem rendered_fraction_nondecreasing:
  "(\<exists>line. render img ord lys lp
       = (Frame (max (render_fraction ord lys) lp) line, max (render_fraction ord lys) lp))
   \<and> sorted (fractions (fst (run img init_state ins)))"
proof -
  have "sorted (lastPct init_state # fractions (fst (run img init_state ins)))"
    using run_ok [OF loop_inv_init] by blast
  then have "sorted (fractions (fst (run img init_state ins)))" by simp
  then show ?thesis using render_eq by blast
qed

theorem rendered_fraction_nondecreasing_witness:
  "fractions (fst (run ''img'' init_state example_pull)) = [1 / 2, 1 / 2, 1 / 2, 1]
   \<and> sorted (fractions (fst (run ''img'' init_state example_pull)))"
proof -
  have e: "fractions (fst (run ''img'' init_state example_pull)) = [1 / 2, 1 / 2, 1 / 2, 1]"
    by code_simp
  have "sorted (fractions (fst (run ''img'' init_state example_pull)))"
    using rendered_fraction_nondecreasing [of "''img''" "[]" "[]" 0 example_pull] by blast
  with e show ?thesis by blast
qed

text \<open>
  C3, as stated, fails: after a layer that is still downloading, a header line "Digest: ..."
  draws the fraction 1 although the completion flag is false (both in the specification's
  sense and as \<open>render\<close> computes it).
\<close>

theorem forced_header_full_while_unfinished:
  "let r = run ''img'' init_state [Step False (Value (layer_record ''a'' ''Downloading'' 50 100))];
       turn = loop_body ''img'' (fst (snd r)) (Step False (Value (header_record ''Digest: sha256:abc'')))
   in snd (snd r) = Continue
      \<and> \<not> allDone_spec (layers (fst (snd turn)))
      \<and> \<not> snd (snd (render_sums (order (fst (snd turn))) (layers (fst (snd turn))) (0, 0, True)))
      \<and> fractions (fst turn) = [1]"
  by code_simp

text \<open>
  C3, amended. In a run of the terminal program from its initial state, every turn but the
  one that takes the forced-complete header branch draws, when the completion flag is false
  after the turn, only fractions below 0.999, hence strictly below 1: a computed fraction
  of 0.999 or more is replaced by 0.99 before the monotonic clamp, and the last fraction
  shown is itself below 0.999 while the loop goes on.
\<close>

theorem unfinished_fraction_below_one:
  assumes reach: "run img init_state ins = (outs, s, Continue)"
    and turn: "loop_body img s (Step key (Value e)) = (out, s', c)"
    and nf: "\<not> forced_complete (decode_event e)"
    and nd: "\<not> allDone_spec (layers s')"
  shows "\<forall>p \<in> set (fractions out). p < 999 / 1000 \<and> p < 1"
proof (cases "cancelled s \<or> error_field e \<noteq> None")
  case True
  with turn have "fractions out = []"
    by (auto simp: loop_body_def Let_def fractions_finalize split: if_splits)
  then show ?thesis by simp
next
  case False
  from reach have "loop_inv s" by (rule run_reaches_inv)
  then have inv: "loop_inv (s\<lparr>cancelled := key\<rparr>)" by (simp add: loop_inv_def)
  from False turn have "handle_event img (s\<lparr>cancelled := key\<rparr>) (decode_event e) = (out, s', c)"
    by (auto simp: loop_body_def Let_def)
  from handle_event_fractions [OF inv this nf nd] show ?thesis by auto
qed

theorem unfinished_fraction_below_one_witness:
  "list_all (\<lambda>p. p < 999 / 1000 \<and> p < 1)
     (fractions (fst (loop_body ''img'' init_state
        (Step False (Value (layer_record ''a'' ''Downloading'' 999 1000))))))
   \<and> fractions (fst (loop_body ''img'' init_state
        (Step False (Value (layer_record ''a'' ''Downloading'' 999 1000))))) = [99 / 100]"
proof -
  let ?e = "layer_record ''a'' ''Downloading'' 999 1000"
  let ?t = "loop_body ''img'' init_state (Step False (Value ?e))"
  have reach: "run ''img'' init_state [] = ([], init_state, Continue)" by simp
  have turn: "?t = (fst ?t, fst (snd ?t), snd (snd ?t))" by simp
  have nf: "\<not> forced_complete (decode_event ?e)" by code_simp
  have nd: "\<not> allDone_spec (layers (fst (snd ?t)))" by code_simp
  have v: "fractions (fst ?t) = [99 / 100]" by code_simp
  from unfinished_fraction_below_one [OF reach turn nf nd] have "\<forall>p \<in> set (fractions (fst ?t)). p < 999 / 1000 \<and> p < 1" .
  then have "list_all (\<lambda>p. p < 999 / 1000 \<and> p < 1) (fractions (fst ?t))"
    by (simp add: list_all_iff)
  with v show ?thesis by blast
qed

text \<open>
  C5. When the loop is running (not cancelled) and decodes a record that carries no error,
  is not a filtered "pulling from" line, has an empty id and a status that contains, in any
  case of letters, "digest:", "downloaded newer image" or "image is up to date", the turn
  draws one frame with the fraction 1, whatever the table holds (also nothing at all), then
  writes the DONE line and the show-cursor sequence, and leaves the loop.
\<close>

theorem forced_header_completes:
  assumes reach: "run img init_state ins = (outs, s, Continue)"
    and nc: "\<not> cancelled s" "\<not> key"
    and ne: "error_field e = None"
    and fc: "forced_complete (decode_event e)"
  shows "\<exists>line. loop_body img s (Step key (Value e))
            = (Frame 1 line # finalize img False, s\<lparr>lastPct := 1\<rparr>, Break)
         \<and> finalize img False
            = [Out ([CHR 0x0D, CHR 0x1B] @ ''[2KPulling '' @ img @ ''...DONE'' @ [CHR 0x0D, CHR 0x0A]),
               Out ([CHR 0x1B] @ ''[?25h'')]"
proof -
  from reach have inv: "loop_inv s" by (rule run_reaches_inv)
  then have "tracker_inv (order s) (layers s)" and "\<not> (layers s \<noteq> [] \<and> main_allDone (layers s))"
    by (simp_all add: loop_inv_def)
  then have "render_fraction (order s) (layers s) < 999 / 1000"
    by (rule render_fraction_bound)
  then have m: "max (render_fraction (order s) (layers s)) 1 = 1" by simp
  obtain line where r: "render_step img (s\<lparr>lastPct := 1\<rparr>)
      = (Frame (max (render_fraction (order s) (layers s)) 1) line,
         s\<lparr>lastPct := max (render_fraction (order s) (layers s)) 1\<rparr>)"
    using render_step_eq [of img "s\<lparr>lastPct := 1\<rparr>"] by auto
  have k: "s\<lparr>cancelled := key\<rparr> = s" using nc by simp
  have "loop_body img s (Step key (Value e)) = handle_event img (s\<lparr>cancelled := key\<rparr>) (decode_event e)"
    using nc ne by (simp add: loop_body_def Let_def)
  also have "\<dots> = handle_event img s (decode_event e)" by (simp only: k)
  also have "\<dots> = (Frame 1 line # finalize img False, s\<lparr>lastPct := 1\<rparr>, Break)"
    using nc fc r m by (simp add: handle_event_def forced_complete_def Let_def)
  finally show ?thesis by (auto simp: finalize_def)
qed

theorem forced_header_completes_witness:
  "\<exists>line. loop_body ''img'' init_state
      (Step False (Value (header_record ''Status: Image is up to date for node:20'')))
     = (Frame 1 line #
        [Out ([CHR 0x0D, CHR 0x1B] @ ''[2KPulling img...DONE'' @ [CHR 0x0D, CHR 0x0A]),
         Out ([CHR 0x1B] @ ''[?25h'')],
        init_state\<lparr>lastPct := 1\<rparr>, Break)"
proof -
  let ?e = "header_record ''Status: Image is up to date for node:20''"
  have reach: "run ''img'' init_state [] = ([], init_state, Continue)" by simp
  have nc: "\<not> cancelled init_state" by (simp add: init_state_def)
  have ne: "error_field ?e = None" by code_simp
  have fc: "forced_complete (decode_event ?e)" by code_simp
  from forced_header_completes [OF reach nc _ ne fc, of False] show ?thesis by auto
qed

text \<open>
  C6. When the loop decodes a record whose \<open>error\<close> field is a non-empty string, the run ends
  there: nothing is drawn and no layer is touched, the one line "Error: message" is printed
  to standard output, the process exits with code 1, and no later record is read.
\<close>

theorem error_record_fatal:
  assumes "\<not> cancelled s" and "as_string (map_of e ''error'') = Some m" and "m \<noteq> []"
  shows "run img s (Step key (Value e) # rest)
           = ([Stdout (''Error: '' @ m @ [CHR 0x0A])], s\<lparr>cancelled := key\<rparr>, OsExit 1)"
  using assms by (simp add: loop_body_def error_field_def Let_def)

theorem error_record_fatal_witness:
  "run ''img'' init_state
     [Step False (Value [(''error'', JString ''pull access denied'')]),
      Step False (Value (layer_record ''a'' ''Downloading'' 50 100))]
   = ([Stdout (''Error: pull access denied'' @ [CHR 0x0A])], init_state, OsExit 1)"
proof -
  have nc: "\<not> cancelled init_state" by (simp add: init_state_def)
  have f: "as_string (map_of [(''error'', JString ''pull access denied'')] ''error'')
             = Some ''pull access denied''" by simp
  have k: "init_state\<lparr>cancelled := False\<rparr> = init_state" by (simp add: init_state_def)
  from error_record_fatal [OF nc f, of "''img''" False] k show ?thesis by (simp del: run.simps)
qed

section \<open>The insertion order and the table\<close>

lemma Update_tracker:
  assumes "tracker_inv (m_order m) (m_layers m)"
  shows "tracker_inv (m_order (fst (Update m x))) (m_layers (fst (Update m x)))
       \<and> prefix (m_order m) (m_order (fst (Update m x)))"
proof (cases x)
  case (ProgressEvent ev)
  obtain ord' lys' where ob: "observe (ev_id ev) (ev_status ev) (ev_current ev) (ev_total ev)
                               (m_order m) (m_layers m) = (ord', lys')"
    by (cases "observe (ev_id ev) (ev_status ev) (ev_current ev) (ev_total ev) (m_order m) (m_layers m)")
  from tracker_inv_observe [OF assms ob] have t: "tracker_inv ord' lys'" and p: "prefix (m_order m) ord'"
    by simp_all
  show ?thesis using ProgressEvent assms ob t p
    by (simp add: Update_def Let_def split: prod.splits)
qed (use assms in \<open>simp_all add: Update_def\<close>)

lemma updates_append: "updates m (xs @ ys) = updates (updates m xs) ys"
  by (induction xs arbitrary: m) simp_all

lemma updates_tracker:
  assumes "tracker_inv (m_order m) (m_layers m)"
  shows "tracker_inv (m_order (updates m xs)) (m_layers (updates m xs))
       \<and> prefix (m_order m) (m_order (updates m xs))"
  using assms
proof (induction xs arbitrary: m)
  case Nil
  then show ?case by simp
next
  case (Cons x xs)
  from Update_tracker [OF Cons.prems, of x]
  have t: "tracker_inv (m_order (fst (Update m x))) (m_layers (fst (Update m x)))"
    and p: "prefix (m_order m) (m_order (fst (Update m x)))" by simp_all
  from Cons.IH [OF t] p show ?case
    by (auto intro: prefix_order.trans)
qed

lemma run_state_append:
  "fst (snd (run img s (xs @ ys))) =
     (if snd (snd (run img s xs)) = Continue then fst (snd (run img (fst (snd (run img s xs))) ys))
      else fst (snd (run img s xs)))"
proof (cases "run img s xs")
  case (fields out s1 c)
  show ?thesis
  proof (cases c)
    case Continue
    with fields show ?thesis
      by (cases "run img s1 ys") (simp add: run_append)
  next
    case Break
    with fields show ?thesis by (simp add: run_append)
  next
    case (OsExit n)
    with fields show ?thesis by (simp add: run_append)
  qed
qed

text \<open>
  C10. After every run of the terminal program from its initial state, and after every list
  of messages given to \<^verbatim>\<open>model.Update\<close> from the initial model: the ids in the order are
  exactly the keys of the table, the order repeats no id (nor does the table a key), and the
  order reached earlier is a prefix of the order reached later, so an id keeps its position
  and nothing is removed or moved.
\<close>

theorem order_tracks_layers:
  "set (order (fst (snd (run img init_state ins)))) = fst ` set (layers (fst (snd (run img init_state ins))))
   \<and> distinct (order (fst (snd (run img init_state ins))))
   \<and> distinct (map fst (layers (fst (snd (run img init_state ins)))))
   \<and> prefix (order (fst (snd (run img init_state ins))))
             (order (fst (snd (run img init_state (ins @ ins')))))
   \<and> set (m_order (updates (initialModel img) ms)) = fst ` set (m_layers (updates (initialModel img) ms))
   \<and> distinct (m_order (updates (initialModel img) ms))
   \<and> distinct (map fst (m_layers (updates (initialModel img) ms)))
   \<and> prefix (m_order (updates (initialModel img) ms))
             (m_order (updates (initialModel img) (ms @ ms')))"
proof -
  let ?s = "fst (snd (run img init_state ins))"
  from run_ok [OF loop_inv_init, of img ins]
  have t: "tracker_inv (order ?s) (layers ?s)"
    and c: "snd (snd (run img init_state ins)) = Continue \<longrightarrow> loop_inv ?s" by simp_all
  have p: "prefix (order ?s) (order (fst (snd (run img init_state (ins @ ins')))))"
  proof (cases "snd (snd (run img init_state ins)) = Continue")
    case True
    with c have "loop_inv ?s" by simp
    from run_ok [OF this, of img ins'] have "prefix (order ?s) (order (fst (snd (run img ?s ins'))))"
      by blast
    moreover have "fst (snd (run img init_state (ins @ ins'))) = fst (snd (run img ?s ins'))"
      by (subst run_state_append) (simp add: True)
    ultimately show ?thesis by (simp only:)
  next
    case False
    then have "fst (snd (run img init_state (ins @ ins'))) = ?s"
      by (subst run_state_append) (simp add: False)
    then show ?thesis by (simp only: prefix_order.refl)
  qed
  have i: "tracker_inv (m_order (initialModel img)) (m_layers (initialModel img))"
    by (simp add: initialModel_def tracker_inv_def)
  let ?m = "updates (initialModel img) ms"
  from updates_tracker [OF i, of ms] have t2: "tracker_inv (m_order ?m) (m_layers ?m)" by blast
  from updates_tracker [OF t2, of ms'] have p2: "prefix (m_order ?m) (m_order (updates (initialModel img) (ms @ ms')))"
    by (simp only: updates_append)
  from t have t': "set (order ?s) = fst ` set (layers ?s)" "distinct (order ?s)" "distinct (map fst (layers ?s))"
    by (simp_all add: tracker_inv_def)
  from t2 have t2': "set (m_order ?m) = fst ` set (m_layers ?m)" "distinct (m_order ?m)"
      "distinct (map fst (m_layers ?m))"
    by (simp_all add: tracker_inv_def)
  from t' p t2' p2 show ?thesis by blast
qed

theorem order_tracks_layers_witness:
  "order (fst (snd (run ''img'' init_state example_pull))) = [''a'', ''b'']
   \<and> set (order (fst (snd (run ''img'' init_state example_pull))))
       = fst ` set (layers (fst (snd (run ''img'' init_state example_pull))))
   \<and> distinct (order (fst (snd (run ''img'' init_state example_pull))))"
proof -
  have "order (fst (snd (run ''img'' init_state example_pull))) = [''a'', ''b'']"
    by code_simp
  then show ?thesis
    using order_tracks_layers [where img = "''img''" and ins = example_pull and ins' = "[]"
        and ms = "[]" and ms' = "[]"]
    by blast
qed

end
